theory Spec2Isabelle
  imports Main "HOL-Library.Sublist"
begin

section \<open>Python values used by the application\<close>

text \<open>
  A Python \<^verbatim>\<open>str\<close> is a sequence of Unicode code points, a \<^verbatim>\<open>bytes\<close> object a
  sequence of bytes. HOL's \<^typ>\<open>char\<close> is a byte, so \<^typ>\<open>string\<close> models \<^verbatim>\<open>bytes\<close>,
  and a \<^verbatim>\<open>str\<close> is the list of its code points. \<open>str_lit\<close> writes an ASCII literal
  of the source as a \<^verbatim>\<open>str\<close>.
\<close>

type_synonym str = "nat list"

type_synonym bytes = "char list"

definition str_lit :: "string \<Rightarrow> str" where
  "str_lit s = map of_char s"

text \<open>
  \<^verbatim>\<open>str.isspace\<close> of one code point, which is also what \<^verbatim>\<open>\s\<close> matches in a
  \<^verbatim>\<open>str\<close> pattern and what \<^verbatim>\<open>str.strip()\<close> removes: the code points CPython's
  \<^verbatim>\<open>Py_UNICODE_ISSPACE\<close> accepts.
\<close>

definition isspace :: "nat \<Rightarrow> bool" where
  "isspace c \<longleftrightarrow>
     (9 \<le> c \<and> c \<le> 13) \<or> (28 \<le> c \<and> c \<le> 32) \<or> c = 133 \<or> c = 160 \<or> c = 5760 \<or>
     (8192 \<le> c \<and> c \<le> 8202) \<or> c = 8232 \<or> c = 8233 \<or> c = 8239 \<or> c = 8287 \<or> c = 12288"

text \<open>\<^verbatim>\<open>s.strip()\<close>: leading and trailing whitespace removed.\<close>

definition strip :: "str \<Rightarrow> str" where
  "strip s = rev (dropWhile isspace (rev (dropWhile isspace s)))"

text \<open>
  \<^verbatim>\<open>s.replace(old, new)\<close>: every non-overlapping occurrence of \<open>old\<close>, found from the
  left, is replaced by \<open>new\<close>; the scan resumes after the occurrence, so \<open>new\<close> is never
  scanned. An empty \<open>old\<close> matches before every code point and at the end.
\<close>

fun replace :: "str \<Rightarrow> str \<Rightarrow> str \<Rightarrow> str" where
  "replace old new [] = (if old = [] then new else [])"
| "replace old new (c # cs) =
     (if old = [] then new @ c # replace old new cs
      else if prefix old (c # cs) then new @ replace old new (drop (length old) (c # cs))
      else c # replace old new cs)"

section \<open>Prompt assembly (\<^verbatim>\<open>get_key_ideas\<close>, line 101)\<close>

definition placeholder :: str where
  "placeholder = str_lit ''{file_text}''"

text \<open>\<^verbatim>\<open>prompt = prompt.replace("{file_text}", file_text)\<close>\<close>

definition assemble_prompt :: "str \<Rightarrow> str \<Rightarrow> str" where
  "assemble_prompt prompt file_text = replace placeholder file_text prompt"

section \<open>Response parsing (\<^verbatim>\<open>get_key_ideas\<close>, lines 107 to 113)\<close>

definition marker :: str where
  "marker = str_lit ''<markdown>''"

text \<open>
  One literal of the pattern against one code point of the subject under
  \<^verbatim>\<open>re.IGNORECASE\<close>. The pattern \<^verbatim>\<open><markdown>\<close> is lower case; the subject code
  point matches when it is the literal or lower-cases to it. For the letters of this
  pattern the code points that lower-case to them are the ASCII capitals and, for
  \<^verbatim>\<open>k\<close>, the Kelvin sign U+212A.
\<close>

definition literal_ignorecase :: "nat \<Rightarrow> nat \<Rightarrow> bool" where
  "literal_ignorecase p c \<longleftrightarrow>
     c = p \<or> (97 \<le> p \<and> p \<le> 122 \<and> c + 32 = p) \<or> (p = 107 \<and> c = 8490)"

text \<open>The literals of a pattern matched at the start of the subject; the rest is returned.\<close>

fun match_ignorecase :: "str \<Rightarrow> str \<Rightarrow> str option" where
  "match_ignorecase [] s = Some s"
| "match_ignorecase (p # ps) [] = None"
| "match_ignorecase (p # ps) (c # cs) =
     (if literal_ignorecase p c then match_ignorecase ps cs else None)"

text \<open>
  \<^verbatim>\<open>re.search(r'<markdown>(.*)', result, re.IGNORECASE | re.DOTALL)\<close>: the leftmost
  position where the marker matches; with \<^verbatim>\<open>DOTALL\<close> the greedy group takes
  everything up to the end of the subject. The value is \<^verbatim>\<open>match.group(1)\<close>, or
  \<open>None\<close> when there is no match.
\<close>

fun re_search_markdown :: "str \<Rightarrow> str option" where
  "re_search_markdown [] = match_ignorecase marker []"
| "re_search_markdown (c # cs) =
     (case match_ignorecase marker (c # cs) of
        Some g \<Rightarrow> Some g
      | None \<Rightarrow> re_search_markdown cs)"

text \<open>
  \<^verbatim>\<open>re.sub(r'^\s*>\s*', '', key_ideas, flags=re.MULTILINE)\<close> as a scan from the left.
  The flag says whether the current position is the start of the subject or follows a
  newline, the only places where \<^verbatim>\<open>^\<close> matches. There the greedy \<^verbatim>\<open>\s*\<close> (which
  crosses newlines) must be followed by \<^verbatim>\<open>>\<close>; the match then takes the whitespace after
  it too, is replaced by nothing, and the scan resumes behind the match. Anywhere else
  the code point is copied.
\<close>

function sub_blockquote :: "bool \<Rightarrow> str \<Rightarrow> str" where
  "sub_blockquote bol [] = []"
| "sub_blockquote bol (c # cs) =
     (if bol then
        (case dropWhile isspace (c # cs) of
           [] \<Rightarrow> c # sub_blockquote (c = 10) cs
         | g # r \<Rightarrow>
             if g = 62
             then sub_blockquote (takeWhile isspace r \<noteq> [] \<and> last (takeWhile isspace r) = 10)
                    (dropWhile isspace r)
             else c # sub_blockquote (c = 10) cs)
      else c # sub_blockquote (c = 10) cs)"
  by pat_completeness auto
termination
proof (relation "measure (\<lambda>(bol, s). length s)")
  fix bol :: bool and c :: nat and cs g r
  assume "dropWhile isspace (c # cs) = g # r"
  then have "length (g # r) \<le> length (c # cs)"
    by (metis length_dropWhile_le)
  moreover have "length (dropWhile isspace r) \<le> length r"
    by (rule length_dropWhile_le)
  ultimately show "((takeWhile isspace r \<noteq> [] \<and> last (takeWhile isspace r) = 10, dropWhile isspace r),
      bol, c # cs) \<in> measure (\<lambda>(bol, s). length s)"
    by simp
qed auto

definition re_sub_blockquote :: "str \<Rightarrow> str" where
  "re_sub_blockquote s = sub_blockquote True s"

text \<open>
  Lines 107 to 113: the value of \<^verbatim>\<open>key_ideas\<close> for the model's text \<open>result\<close>.
\<close>

definition parse_response :: "str \<Rightarrow> str option" where
  "parse_response result =
     (case re_search_markdown result of
        Some g \<Rightarrow> Some (re_sub_blockquote (strip g))
      | None \<Rightarrow> None)"


section \<open>Exceptions, effects and the libraries behind the application\<close>

text \<open>
  An exception is a value. The built-in ones the source can raise are named; an exception
  raised inside a library carries its text.
\<close>

datatype exn = TypeError | IndexError | KeyError | UnicodeDecodeError | LibraryError str

text \<open>
  What a run does to the outside: the Streamlit elements it writes, what it prints, and
  the remote call. \<open>StError\<close> keeps the literal text and, for the f-strings
  \<^verbatim>\<open>f"An error occurred: {e}"\<close> and \<^verbatim>\<open>f"Error in Gemini API call: {str(e)}"\<close>, the
  exception that is formatted into it.
\<close>

type_synonym response = "str list list"

datatype event =
    StError str "exn option"
  | StWarning str
  | StSuccess str
  | StMarkdown str
  | StWrite str
  | PlaceholderWrite "str option"
  | PlaceholderEmpty
  | MessageEmpty
  | Print response
  | GenerateContent str str

text \<open>
  The state a run changes: the trace of events, oldest first, and the temporary files on
  disk (path and content).
\<close>

record world =
  events :: "event list"
  tmp_files :: "(nat \<times> bytes) list"

definition emit :: "event \<Rightarrow> world \<Rightarrow> world" where
  "emit e w = w\<lparr>events := events w @ [e]\<rparr>"

text \<open>
  \<^verbatim>\<open>tempfile.NamedTemporaryFile(delete=False)\<close> followed by \<^verbatim>\<open>temp_file.write\<close>: a file
  with a path not in use is created and stays after the \<^verbatim>\<open>with\<close> block closes it.
\<close>

definition fresh_path :: "(nat \<times> bytes) list \<Rightarrow> nat" where
  "fresh_path fs = Suc (fold max (map fst fs) 0)"

definition named_temporary_file :: "bytes \<Rightarrow> world \<Rightarrow> nat \<times> world" where
  "named_temporary_file file_content w =
     (let temp_file_path = fresh_path (tmp_files w)
      in (temp_file_path, w\<lparr>tmp_files := tmp_files w @ [(temp_file_path, file_content)]\<rparr>))"

text \<open>\<^verbatim>\<open>os.unlink(path)\<close>\<close>

definition unlink :: "nat \<Rightarrow> world \<Rightarrow> world" where
  "unlink path w = w\<lparr>tmp_files := filter (\<lambda>f. fst f \<noteq> path) (tmp_files w)\<rparr>"

text \<open>
  The libraries are parameters of the model. Each returns its value or the exception it
  raises: the page texts of a PDF (\<^verbatim>\<open>pymupdf.open\<close> and \<^verbatim>\<open>page.get_text()\<close> of every
  page), the items of an EPUB (\<^verbatim>\<open>epub.read_epub\<close> and \<^verbatim>\<open>book.get_items()\<close>), the text
  of a markup document (\<^verbatim>\<open>BeautifulSoup(content, 'html.parser').get_text()\<close>), and the
  remote model (\<^verbatim>\<open>model.generate_content(prompt)\<close> under the configured API key),
  whose response is the list of its candidates, each the list of the texts of its parts.
\<close>

datatype epub_item = EpubHtml bytes | EpubItem bytes

record ext =
  pdf_page_texts :: "bytes \<Rightarrow> exn + str list"
  read_epub :: "bytes \<Rightarrow> exn + epub_item list"
  soup_get_text :: "bytes \<Rightarrow> exn + str"
  generate_content :: "str \<Rightarrow> str \<Rightarrow> exn + response"

section \<open>Decoding UTF-8 (\<^verbatim>\<open>bytes.decode("utf-8")\<close>)\<close>

text \<open>
  The strict decoder over byte values: shortest form only, no surrogates, nothing above
  U+10FFFF. \<open>None\<close> is \<^verbatim>\<open>UnicodeDecodeError\<close>.
\<close>

definition cont :: "nat \<Rightarrow> bool" where
  "cont b \<longleftrightarrow> 128 \<le> b \<and> b \<le> 191"

fun decode_utf8 :: "nat list \<Rightarrow> str option" where
  "decode_utf8 [] = Some []"
| "decode_utf8 (b0 # bs) =
     (if b0 < 128 then map_option ((#) b0) (decode_utf8 bs)
      else if 194 \<le> b0 \<and> b0 \<le> 223 then
        (case bs of
           b1 # r \<Rightarrow>
             if cont b1
             then map_option ((#) ((b0 - 192) * 64 + (b1 - 128))) (decode_utf8 r)
             else None
         | _ \<Rightarrow> None)
      else if 224 \<le> b0 \<and> b0 \<le> 239 then
        (case bs of
           b1 # b2 # r \<Rightarrow>
             if (if b0 = 224 then 160 else 128) \<le> b1 \<and> b1 \<le> (if b0 = 237 then 159 else 191)
                \<and> cont b2
             then map_option ((#) ((b0 - 224) * 4096 + (b1 - 128) * 64 + (b2 - 128)))
                    (decode_utf8 r)
             else None
         | _ \<Rightarrow> None)
      else if 240 \<le> b0 \<and> b0 \<le> 244 then
        (case bs of
           b1 # b2 # b3 # r \<Rightarrow>
             if (if b0 = 240 then 144 else 128) \<le> b1 \<and> b1 \<le> (if b0 = 244 then 143 else 191)
                \<and> cont b2 \<and> cont b3
             then map_option
                    ((#) ((b0 - 240) * 262144 + (b1 - 128) * 4096 + (b2 - 128) * 64 + (b3 - 128)))
                    (decode_utf8 r)
             else None
         | _ \<Rightarrow> None)
      else None)"

definition decode :: "bytes \<Rightarrow> exn + str" where
  "decode file_content =
     (case decode_utf8 (map of_char file_content) of
        None \<Rightarrow> Inl UnicodeDecodeError
      | Some s \<Rightarrow> Inr s)"

section \<open>Text extraction (\<^verbatim>\<open>process_file\<close>)\<close>

text \<open>The loop over the items of the book, lines 140 to 143.\<close>

fun epub_text :: "ext \<Rightarrow> epub_item list \<Rightarrow> str \<Rightarrow> exn + str" where
  "epub_text x [] full_text = Inr full_text"
| "epub_text x (EpubHtml content # items) full_text =
     (case soup_get_text x content of
        Inl e \<Rightarrow> Inl e
      | Inr t \<Rightarrow> epub_text x items (full_text @ t))"
| "epub_text x (EpubItem content # items) full_text = epub_text x items full_text"

text \<open>
  The EPUB branch, lines 133 to 145. The book is read from the temporary file, whose
  content is \<open>file_content\<close>. An exception leaves the branch at once, so
  \<^verbatim>\<open>os.unlink\<close> runs only when reading the book and the loop both succeed.
\<close>

definition process_epub :: "ext \<Rightarrow> bytes \<Rightarrow> world \<Rightarrow> (exn + str) \<times> world" where
  "process_epub x file_content w =
     (let (temp_file_path, w1) = named_temporary_file file_content w
      in case read_epub x file_content of
           Inl e \<Rightarrow> (Inl e, w1)
         | Inr items \<Rightarrow>
             (case epub_text x items [] of
                Inl e \<Rightarrow> (Inl e, w1)
              | Inr full_text \<Rightarrow> (Inr full_text, unlink temp_file_path w1)))"

text \<open>The body of the \<^verbatim>\<open>try\<close>, lines 124 to 148.\<close>

definition process_file_body :: "ext \<Rightarrow> bytes \<Rightarrow> str \<Rightarrow> world \<Rightarrow> (exn + str) \<times> world" where
  "process_file_body x file_content file_type w =
     (if file_type = str_lit ''application/pdf'' then
        (case pdf_page_texts x file_content of
           Inl e \<Rightarrow> (Inl e, w)
         | Inr pages \<Rightarrow> (Inr (foldl (@) [] pages), w))
      else if file_type = str_lit ''application/epub+zip'' then process_epub x file_content w
      else (decode file_content, w))"

text \<open>
  \<^verbatim>\<open>process_file\<close>: the text, or \<open>None\<close> after \<^verbatim>\<open>st.error\<close> when anything in the
  body raised. (The \<^verbatim>\<open>st.cache_data\<close> decorator only avoids running the body again for
  the same arguments; the model is one run of the body.)
\<close>

definition process_file :: "ext \<Rightarrow> bytes \<Rightarrow> str \<Rightarrow> world \<Rightarrow> str option \<times> world" where
  "process_file x file_content file_type w =
     (case process_file_body x file_content file_type w of
        (Inr full_text, w') \<Rightarrow> (Some full_text, w')
      | (Inl e, w') \<Rightarrow> (None, emit (StError (str_lit ''An error occurred: '') (Some e)) w'))"

section \<open>The remote call (\<^verbatim>\<open>get_key_ideas\<close>)\<close>

text \<open>\<^verbatim>\<open>response.candidates[0].content.parts[0].text\<close>\<close>

definition first_text :: "response \<Rightarrow> exn + str" where
  "first_text r =
     (case r of
        [] \<Rightarrow> Inl IndexError
      | parts # _ \<Rightarrow> (case parts of [] \<Rightarrow> Inl IndexError | t # _ \<Rightarrow> Inr t))"

text \<open>
  \<^verbatim>\<open>get_key_ideas\<close>. \<open>file_text\<close> is what \<^verbatim>\<open>process_file\<close> returned, so it may be
  \<open>None\<close>; then \<^verbatim>\<open>prompt.replace\<close> raises \<^verbatim>\<open>TypeError\<close> on line 101, before the
  \<^verbatim>\<open>try\<close>, and the exception leaves the function (\<open>Inl\<close>). Everything raised inside the
  \<^verbatim>\<open>try\<close> is reported with \<^verbatim>\<open>st.error\<close> and the function returns \<open>None\<close>.
\<close>

definition get_key_ideas ::
  "ext \<Rightarrow> str option \<Rightarrow> str \<Rightarrow> str \<Rightarrow> world \<Rightarrow> (exn + str option) \<times> world" where
  "get_key_ideas x file_text api_key prompt w =
     (case file_text of
        None \<Rightarrow> (Inl TypeError, w)
      | Some t \<Rightarrow>
          (let prompt' = assemble_prompt prompt t;
               w1 = emit (GenerateContent api_key prompt') w
           in case generate_content x api_key prompt' of
                Inl e \<Rightarrow>
                  (Inr None, emit (StError (str_lit ''Error in Gemini API call: '') (Some e)) w1)
              | Inr response \<Rightarrow>
                  (let w2 = emit (Print response) w1
                   in case first_text response of
                        Inl e \<Rightarrow>
                          (Inr None,
                           emit (StError (str_lit ''Error in Gemini API call: '') (Some e)) w2)
                      | Inr result \<Rightarrow> (Inr (parse_response result), w2))))"

section \<open>The Home page (lines 171 to 206)\<close>

record session =
  api_key :: str
  uploaded_file_content :: "bytes option"
  file_type :: "str option"
  custom_prompt :: str

text \<open>
  One run of the script on the Home page: \<open>uploaded_file\<close> is what the uploader holds
  (content and media type), \<open>key_input\<close> the text of the API key field and \<open>clicked\<close>
  whether the button "Extract Lessons" was pressed. The result is the exception that
  ended the run, if any, the session state and the world.
\<close>

definition home_page ::
  "ext \<Rightarrow> (bytes \<times> str) option \<Rightarrow> str \<Rightarrow> bool \<Rightarrow> session \<Rightarrow> world
     \<Rightarrow> exn option \<times> session \<times> world" where
  "home_page x uploaded_file key_input clicked s w =
     (let s1 = (case uploaded_file of
                  None \<Rightarrow> s
                | Some (content, type) \<Rightarrow>
                    s\<lparr>uploaded_file_content := Some content, file_type := Some type\<rparr>);
          s2 = s1\<lparr>api_key := key_input\<rparr>
      in case uploaded_file_content s2 of
           None \<Rightarrow>
             (None, s2,
              emit (StWrite (str_lit ''Please upload a PDF, TXT, or EPUB file using the sidebar.'')) w)
         | Some content \<Rightarrow>
             if content = [] then
               (None, s2,
                emit (StWrite (str_lit ''Please upload a PDF, TXT, or EPUB file using the sidebar.'')) w)
             else
               (case file_type s2 of
                  None \<Rightarrow> (Some KeyError, s2, w)
                | Some type \<Rightarrow>
                    (let (full_text, w1) = process_file x content type w;
                         w2 = emit (PlaceholderWrite full_text) w1
                     in if \<not> clicked then (None, s2, w2)
                        else
                          (case get_key_ideas x full_text (api_key s2) (custom_prompt s2)
                                  (emit (StWarning (str_lit ''Extracting key lessons...''))
                                     (emit PlaceholderEmpty w2)) of
                             (Inl e, w3) \<Rightarrow> (Some e, s2, w3)
                           | (Inr key_ideas, w3) \<Rightarrow>
                               (case key_ideas of
                                  None \<Rightarrow>
                                    (None, s2,
                                     emit (StError (str_lit ''Could not extract the lessons.'') None)
                                       (emit MessageEmpty w3))
                                | Some k \<Rightarrow>
                                    (None, s2,
                                     emit (StMarkdown k)
                                       (emit (StSuccess (str_lit ''Key lessons extracted!''))
                                          (emit MessageEmpty w3))))))))"


section \<open>Vocabulary of the properties\<close>

text \<open>
  The positions at which \<open>old\<close> occurs in \<open>s\<close> (occurrences may overlap), and
  \<^verbatim>\<open>sep.join(segs)\<close>.
\<close>

definition occurrences :: "str \<Rightarrow> str \<Rightarrow> nat list" where
  "occurrences old s = filter (\<lambda>i. prefix old (drop i s)) [0..<Suc (length s)]"

fun join :: "str \<Rightarrow> str list \<Rightarrow> str" where
  "join sep [] = []"
| "join sep [s] = s"
| "join sep (s # t # r) = s @ sep @ join sep (t # r)"

text \<open>
  The substitution as the specification words it, "only the first occurrence in the
  template is replaced": \<^verbatim>\<open>s.replace(old, new, 1)\<close>. It is not what the source calls; it
  is here to be compared with \<open>replace\<close>.
\<close>

fun spec_replace_first :: "str \<Rightarrow> str \<Rightarrow> str \<Rightarrow> str" where
  "spec_replace_first old new [] = (if old = [] then new else [])"
| "spec_replace_first old new (c # cs) =
     (if prefix old (c # cs) then new @ drop (length old) (c # cs)
      else c # spec_replace_first old new cs)"

text \<open>What a trace shows: the remote calls made and the error messages displayed.\<close>

fun remote_calls :: "event list \<Rightarrow> (str \<times> str) list" where
  "remote_calls [] = []"
| "remote_calls (GenerateContent k p # es) = (k, p) # remote_calls es"
| "remote_calls (e # es) = remote_calls es"

fun shown_errors :: "event list \<Rightarrow> (str \<times> exn option) list" where
  "shown_errors [] = []"
| "shown_errors (StError m e # es) = (m, e) # shown_errors es"
| "shown_errors (e # es) = shown_errors es"

text \<open>
  UTF-8 as the standard defines it: the Unicode scalar values (no surrogates, at most
  U+10FFFF) and the bytes that encode a sequence of them.
\<close>

definition scalar :: "nat \<Rightarrow> bool" where
  "scalar c \<longleftrightarrow> c < 55296 \<or> (57344 \<le> c \<and> c < 1114112)"

definition encode_cp :: "nat \<Rightarrow> nat list" where
  "encode_cp c =
     (if c < 128 then [c]
      else if c < 2048 then [192 + c div 64, 128 + c mod 64]
      else if c < 65536 then [224 + c div 4096, 128 + c div 64 mod 64, 128 + c mod 64]
      else [240 + c div 262144, 128 + c div 4096 mod 64, 128 + c div 64 mod 64, 128 + c mod 64])"

definition encode_utf8 :: "str \<Rightarrow> nat list" where
  "encode_utf8 s = concat (map encode_cp s)"

section \<open>Prompt assembly: all occurrences are replaced\<close>

lemma replace_no_occurrence:
  "old \<noteq> [] \<Longrightarrow> (\<And>i. \<not> prefix old (drop i s)) \<Longrightarrow> replace old new s = s"
proof (induction s)
  case Nil
  then show ?case by simp
next
  case (Cons c cs)
  have "\<not> prefix old (c # cs)" using Cons.prems(2) [of 0] by simp
  moreover have "\<And>i. \<not> prefix old (drop i cs)" using Cons.prems(2) [of "Suc i" for i] by simp
  ultimately show ?case using Cons by simp
qed

lemma replace_first_occurrence:
  "old \<noteq> [] \<Longrightarrow> prefix old (drop n s) \<Longrightarrow> (\<And>i. i < n \<Longrightarrow> \<not> prefix old (drop i s)) \<Longrightarrow>
   replace old new s = take n s @ new @ replace old new (drop (n + length old) s)"
proof (induction n arbitrary: s)
  case 0
  then obtain c cs where s: "s = c # cs" by (cases s) auto
  show ?case using 0 s by (simp add: add.commute)
next
  case (Suc n)
  then obtain c cs where s: "s = c # cs" by (cases s) auto
  have np: "\<not> prefix old (c # cs)" using Suc.prems(3) [of 0] s by simp
  have "\<And>i. i < n \<Longrightarrow> \<not> prefix old (drop i cs)" using Suc.prems(3) [of "Suc i" for i] s by simp
  moreover have "prefix old (drop n cs)" using Suc.prems(2) s by simp
  ultimately have "replace old new cs = take n cs @ new @ replace old new (drop (n + length old) cs)"
    using Suc.IH [of cs] Suc.prems(1) by blast
  then show ?case using s np Suc.prems(1) by simp
qed

lemma placeholder_brace: "k < length placeholder \<Longrightarrow> placeholder ! k = 123 \<Longrightarrow> k = 0"
  by (auto simp: placeholder_def str_lit_def nth_Cons' less_Suc_eq numeral_eq_Suc split: if_splits)

lemma placeholder_Cons: "placeholder = 123 # tl placeholder" "length placeholder = 11"
  by (simp_all add: placeholder_def str_lit_def)


lemma prefix_drop_sublist: "prefix old (drop i s) \<Longrightarrow> sublist old s"
  using suffix_drop [of i s] by (auto simp: sublist_altdef')

lemma replace_no_sublist: "\<not> sublist placeholder s \<Longrightarrow> replace placeholder new s = s"
  by (rule replace_no_occurrence) (auto simp: placeholder_Cons(2) dest: prefix_drop_sublist)

lemma no_early_occurrence:
  assumes "\<not> sublist placeholder pre" "i < length pre"
  shows "\<not> prefix placeholder (drop i (pre @ placeholder @ post))"
proof
  assume p: "prefix placeholder (drop i (pre @ placeholder @ post))"
  define a where "a = drop i pre"
  have a: "a \<noteq> []" using assms(2) by (simp add: a_def)
  have "prefix placeholder (a @ placeholder @ post)" using p assms(2) by (simp add: a_def)
  then consider "prefix placeholder a"
    | us where "placeholder = a @ us" "prefix us (placeholder @ post)"
    by (auto simp: prefix_append)
  then show False
  proof cases
    case 1
    then show False using assms(1) prefix_drop_sublist [of placeholder i pre] by (simp add: a_def)
  next
    case 2
    show False
    proof (cases us)
      case Nil
      then have "prefix placeholder (drop i pre)" using 2(1) by (simp add: a_def)
      then show False using assms(1) prefix_drop_sublist by blast
    next
      case (Cons u us')
      have "prefix (u # us') (123 # tl placeholder @ post)"
        using 2(2) Cons placeholder_Cons(1) by (metis append_Cons)
      then have u: "u = 123" by simp
      have "placeholder ! length a = u" using 2(1) Cons by (metis nth_append_length)
      moreover have "length a < length placeholder"
      proof -
        have "length placeholder = length a + length us" using 2(1) by (metis length_append)
        then show ?thesis using Cons by simp
      qed
      ultimately have "length a = 0" using u placeholder_brace by blast
      then show False using a by simp
    qed
  qed
qed

lemma replace_segment:
  assumes "\<not> sublist placeholder pre"
  shows "replace placeholder new (pre @ placeholder @ post) = pre @ new @ replace placeholder new post"
proof -
  have "replace placeholder new (pre @ placeholder @ post) =
      take (length pre) (pre @ placeholder @ post) @ new @
      replace placeholder new (drop (length pre + length placeholder) (pre @ placeholder @ post))"
  proof (rule replace_first_occurrence)
    show "placeholder \<noteq> []" using placeholder_Cons(2) by auto
    show "prefix placeholder (drop (length pre) (pre @ placeholder @ post))" by simp
    show "\<not> prefix placeholder (drop i (pre @ placeholder @ post))" if "i < length pre" for i
      using no_early_occurrence [OF assms that] .
  qed
  then show ?thesis by simp
qed

text \<open>
  C2, as the code has it. \<^verbatim>\<open>str.replace\<close> is called without a count, so it replaces
  every occurrence of the placeholder, not only the first: a template that is the
  placeholder-free segments \<open>segs\<close> joined by the placeholder becomes the same segments
  joined by the extracted text. The text is inserted verbatim and never scanned again,
  whatever it contains (the placeholder included).
\<close>

theorem assemble_prompt_replaces_every_placeholder:
  "list_all (\<lambda>s. \<not> sublist placeholder s) segs \<Longrightarrow>
   assemble_prompt (join placeholder segs) text = join text segs"
proof (induction placeholder segs rule: join.induct)
  case 1
  then show ?case by (simp add: assemble_prompt_def placeholder_Cons(2) flip: length_0_conv)
next
  case (2 s)
  then show ?case by (simp add: assemble_prompt_def replace_no_sublist)
next
  case (3 s t r)
  then show ?case by (simp add: assemble_prompt_def replace_segment)
qed

theorem assemble_prompt_replaces_every_placeholder_witness:
  "list_all (\<lambda>s. \<not> sublist placeholder s) [str_lit ''a'', str_lit ''b'', str_lit ''c''] \<and>
   assemble_prompt (str_lit ''a{file_text}b{file_text}c'') placeholder = str_lit ''a{file_text}b{file_text}c''"
proof -
  have h: "list_all (\<lambda>s. \<not> sublist placeholder s) [str_lit ''a'', str_lit ''b'', str_lit ''c'']"
    by code_simp
  show ?thesis using h assemble_prompt_replaces_every_placeholder [OF h, of placeholder]
    by (simp add: str_lit_def placeholder_def)
qed


text \<open>
  The claim as stated fails on a template with two placeholders: both are replaced, where
  replacing only the first would leave the second.
\<close>

theorem assemble_prompt_not_first_only:
  "assemble_prompt (str_lit ''{file_text} and {file_text}'') (str_lit ''abc'') = str_lit ''abc and abc'' \<and>
   spec_replace_first placeholder (str_lit ''abc'') (str_lit ''{file_text} and {file_text}'') =
     str_lit ''abc and {file_text}'' \<and>
   assemble_prompt (str_lit ''{file_text} and {file_text}'') (str_lit ''abc'') \<noteq>
     spec_replace_first placeholder (str_lit ''abc'') (str_lit ''{file_text} and {file_text}'')"
  by code_simp

section \<open>Prompt assembly: a template with one placeholder\<close>

lemma occurrences_single:
  assumes "occurrences old s = [n]" "old \<noteq> []"
  shows "prefix old (drop n s)" and "\<And>i. i \<noteq> n \<Longrightarrow> \<not> prefix old (drop i s)"
proof -
  have mem: "\<And>i. i \<in> set (occurrences old s) \<longleftrightarrow> i \<le> length s \<and> prefix old (drop i s)"
    by (auto simp: occurrences_def simp del: upt_Suc)
  show "prefix old (drop n s)" using mem [of n] assms(1) by simp
  show "\<not> prefix old (drop i s)" if "i \<noteq> n" for i
  proof (cases "i \<le> length s")
    case True
    then show ?thesis using mem [of i] assms(1) that by auto
  next
    case False
    then show ?thesis using assms(2) by simp
  qed
qed

lemma occurrences_Nil_iff: "occurrences old s = [] \<longleftrightarrow> \<not> sublist old s"
proof
  assume e: "occurrences old s = []"
  show "\<not> sublist old s"
  proof
    assume "sublist old s"
    then obtain ps ss where s: "s = ps @ old @ ss" by (auto simp: sublist_def)
    have "length ps \<in> set (occurrences old s)"
      unfolding occurrences_def using s by (simp del: upt_Suc)
    then show False using e by simp
  qed
next
  assume n: "\<not> sublist old s"
  have "\<not> prefix old (drop i s)" for i using n prefix_drop_sublist by blast
  then show "occurrences old s = []" by (simp add: occurrences_def)
qed

lemma prefix_short: "prefix xs (ys @ zs) \<Longrightarrow> length xs \<le> length ys \<Longrightarrow> prefix xs ys"
  by (auto simp: prefix_append)


lemma seam_window:
  assumes occ: "prefix placeholder (drop n template)"
      "\<And>i. i \<noteq> n \<Longrightarrow> \<not> prefix placeholder (drop i template)"
  shows "sublist placeholder
           (take n template @ text @ drop (n + length placeholder) template) \<longleftrightarrow>
         sublist placeholder
           (drop (n - 10) (take n template) @ text @
            take 10 (drop (n + length placeholder) template))"
proof -
  define pre where "pre = take n template"
  define post where "post = drop (n + length placeholder) template"
  have "sublist placeholder (pre @ text @ post) \<longleftrightarrow>
         sublist placeholder (drop (n - 10) pre @ text @ take 10 post)"
proof
  define W where "W = drop (n - 10) pre @ text @ take 10 post"
  have "pre @ text @ post = take (n - 10) pre @ W @ drop 10 post"
    by (simp add: W_def)
  moreover have "sublist W (take (n - 10) pre @ W @ drop 10 post)" by (rule sublist_appendI)
  ultimately have "sublist W (pre @ text @ post)" by simp
  then show "sublist placeholder (pre @ text @ post)"
    if "sublist placeholder (drop (n - 10) pre @ text @ take 10 post)"
    using that unfolding W_def by (rule sublist_order.order.trans [rotated])
next
  define k where "k = n - 10"
  define W where "W = drop k pre @ text @ take 10 post"
  have len: "length placeholder = 11" by (rule placeholder_Cons(2))
  obtain z where z: "drop n template = placeholder @ z" using occ(1) by (auto simp: prefix_def)
  have n: "n \<le> length template"
  proof (rule ccontr)
    assume "\<not> n \<le> length template"
    then show False using z len by auto
  qed
  have lpre: "length pre = n" using n by (simp add: pre_def)
  have "post = drop (length placeholder) (drop n template)"
    by (simp add: post_def add.commute)
  then have post: "post = z" using z by simp
  have T: "template = pre @ placeholder @ post"
    using z post append_take_drop_id [of n template] by (simp add: pre_def)
  assume "sublist placeholder (pre @ text @ post)"
  then obtain ps ss where R: "pre @ text @ post = ps @ placeholder @ ss"
    by (auto simp: sublist_def)
  define i where "i = length ps"
  have h: "prefix placeholder (drop i (pre @ text @ post))" by (simp add: R i_def)
  consider (A) "i + 11 \<le> n" | (B) "n + length text \<le> i" | (C) "n < i + 11" "i < n + length text"
    by linarith
  then show "sublist placeholder (drop (n - 10) pre @ text @ take 10 post)"
  proof cases
    case A
    have "drop i (pre @ text @ post) = drop i pre @ text @ post" using A lpre by simp
    moreover have "length placeholder \<le> length (drop i pre)" using A lpre len by simp
    ultimately have "prefix placeholder (drop i pre)"
      using h prefix_short [of placeholder "drop i pre" "text @ post"] by simp
    then have "prefix placeholder (drop i pre @ placeholder @ post)" by (rule prefix_prefix)
    moreover have "drop i template = drop i pre @ placeholder @ post"
      using A lpre by (subst T) simp
    ultimately have "prefix placeholder (drop i template)" by simp
    moreover have "i \<noteq> n" using A by simp
    ultimately show ?thesis using occ(2) by blast
  next
    case B
    have "drop i (pre @ text @ post) = drop (i - (n + length text)) post" using B lpre by simp
    moreover have "drop (i - length text + 11) template = drop (i - (n + length text)) post"
    proof -
      have "i - length text + 11 = (i - (n + length text)) + (n + length placeholder)"
        using B len by simp
      then show ?thesis by (simp add: post_def)
    qed
    ultimately have "prefix placeholder (drop (i - length text + 11) template)" using h by simp
    moreover have "i - length text + 11 \<noteq> n" using B by simp
    ultimately show ?thesis using occ(2) by blast
  next
    case C
    have ki: "k \<le> i" "k \<le> n" using C by (simp_all add: k_def)
    define V where "V = drop k pre @ text @ post"
    have "pre @ text @ post = take k pre @ V" by (simp add: V_def)
    moreover have "length (take k pre) = k" using ki lpre by simp
    moreover have "drop i (take k pre) = []" using ki by simp
    ultimately have dV: "drop i (pre @ text @ post) = drop (i - k) V" by simp
    have V: "V = W @ drop 10 post" by (simp add: V_def W_def)
    have lW: "length W = n - k + length text + min (length post) 10"
      using lpre by (simp add: W_def)
    have ik: "i - k \<le> length W" using C ki lW by simp
    have "prefix placeholder (drop (i - k) W)"
    proof (cases "10 \<le> length post")
      case True
      have "drop (i - k) V = drop (i - k) W @ drop 10 post" using ik V by simp
      moreover have "length placeholder \<le> length (drop (i - k) W)"
        using True lW C ki len by simp
      ultimately show ?thesis
        using h dV prefix_short [of placeholder "drop (i - k) W" "drop 10 post"] by simp
    next
      case False
      then have "V = W" using V by simp
      then show ?thesis using h dV by simp
    qed
    then show ?thesis using prefix_drop_sublist unfolding W_def k_def by blast
  qed
qed
  then show ?thesis by (simp add: pre_def post_def)
qed

text \<open>
  C5, as the code has it. For a template whose only occurrence of the placeholder is at
  position \<open>n\<close>, the assembled prompt is the template with the placeholder cut out and
  the extracted text in its place, verbatim, for every extracted text. The prompt holds
  no placeholder exactly when the placeholder occurs neither inside the inserted text nor
  across one of its two seams with the template, that is, not in the text together with
  the ten code points of the template on either side of it.
\<close>

theorem assemble_prompt_single_placeholder:
  assumes "occurrences placeholder template = [n]"
  shows "assemble_prompt template text =
           take n template @ text @ drop (n + length placeholder) template \<and>
         (occurrences placeholder (assemble_prompt template text) = [] \<longleftrightarrow>
            \<not> sublist placeholder
               (drop (n - 10) (take n template) @ text @
                take 10 (drop (n + length placeholder) template)))"
proof -
  have ne: "placeholder \<noteq> []" using placeholder_Cons(2) by auto
  note occ = occurrences_single [OF assms ne]
  have "replace placeholder text template =
      take n template @ text @ replace placeholder text (drop (n + length placeholder) template)"
    using ne occ by (intro replace_first_occurrence) auto
  moreover have "replace placeholder text (drop (n + length placeholder) template) =
      drop (n + length placeholder) template"
  proof (rule replace_no_occurrence [OF ne])
    fix i
    have "i + (n + length placeholder) \<noteq> n" using placeholder_Cons(2) by simp
    then show "\<not> prefix placeholder (drop i (drop (n + length placeholder) template))"
      using occ(2) by simp
  qed
  ultimately have eq: "assemble_prompt template text =
      take n template @ text @ drop (n + length placeholder) template"
    by (simp add: assemble_prompt_def)
  show ?thesis
    using eq seam_window [OF occ, of "text"] by (simp add: occurrences_Nil_iff)
qed

theorem assemble_prompt_single_placeholder_witness:
  "occurrences placeholder (str_lit ''Text: {file_text}'') = [6] \<and>
   assemble_prompt (str_lit ''Text: {file_text}'') (str_lit ''f(x) { return x; }'') =
     str_lit ''Text: f(x) { return x; }'' \<and>
   occurrences placeholder
     (assemble_prompt (str_lit ''Text: {file_text}'') (str_lit ''f(x) { return x; }'')) = [] \<and>
   occurrences placeholder (str_lit ''{file_{file_text}'') = [6] \<and>
   assemble_prompt (str_lit ''{file_{file_text}'') (str_lit ''text}'') = str_lit ''{file_text}'' \<and>
   occurrences placeholder
     (assemble_prompt (str_lit ''{file_{file_text}'') (str_lit ''text}'')) \<noteq> []"
proof -
  have h1: "occurrences placeholder (str_lit ''Text: {file_text}'') = [6]"
    and h2: "occurrences placeholder (str_lit ''{file_{file_text}'') = [6]"
    by code_simp+
  have v1: "take 6 (str_lit ''Text: {file_text}'') @ str_lit ''f(x) { return x; }'' @
      drop (6 + length placeholder) (str_lit ''Text: {file_text}'') =
      str_lit ''Text: f(x) { return x; }''"
    and v2: "take 6 (str_lit ''{file_{file_text}'') @ str_lit ''text}'' @
      drop (6 + length placeholder) (str_lit ''{file_{file_text}'') = str_lit ''{file_text}''"
    by (simp_all add: str_lit_def placeholder_def)
  have s1: "\<not> sublist placeholder
      (drop (6 - 10) (take 6 (str_lit ''Text: {file_text}'')) @ str_lit ''f(x) { return x; }'' @
       take 10 (drop (6 + length placeholder) (str_lit ''Text: {file_text}'')))"
    by code_simp
  have s2: "sublist placeholder
      (drop (6 - 10) (take 6 (str_lit ''{file_{file_text}'')) @ str_lit ''text}'' @
       take 10 (drop (6 + length placeholder) (str_lit ''{file_{file_text}'')))"
    by code_simp
  show ?thesis
    using h1 h2 v1 v2 s1 s2
      assemble_prompt_single_placeholder [OF h1, of "str_lit ''f(x) { return x; }''"] assemble_prompt_single_placeholder [OF h2, of "str_lit ''text}''"]
    by metis
qed

text \<open>
  The claim as stated fails when the extracted text is itself the placeholder: the
  template has one occurrence, and so has the assembled prompt.
\<close>

theorem assemble_prompt_placeholder_remains:
  "occurrences placeholder (str_lit ''{file_text}'') = [0] \<and>
   occurrences placeholder (assemble_prompt (str_lit ''{file_text}'') (str_lit ''{file_text}'')) = [0]"
  by code_simp


section \<open>What a run shows\<close>

lemma remote_calls_append [simp]: "remote_calls (es @ fs) = remote_calls es @ remote_calls fs"
  by (induction es rule: remote_calls.induct) auto

lemma shown_errors_append [simp]: "shown_errors (es @ fs) = shown_errors es @ shown_errors fs"
  by (induction es rule: shown_errors.induct) auto

lemma events_emit [simp]: "events (emit e w) = events w @ [e]"
  by (simp add: emit_def)

lemma tmp_files_emit [simp]: "tmp_files (emit e w) = tmp_files w"
  by (simp add: emit_def)

lemma events_process_file_body: "events (snd (process_file_body x c ft w)) = events w"
  by (auto simp: process_file_body_def process_epub_def named_temporary_file_def unlink_def Let_def
      split: sum.splits)

lemma process_file_None:
  assumes "fst (process_file x c ft w) = None"
  shows "\<exists>e. events (snd (process_file x c ft w)) = events w @ [StError (str_lit ''An error occurred: '') (Some e)]"
proof (cases "process_file_body x c ft w")
  case (Pair r w')
  have w': "events w' = events w" using events_process_file_body [of x c ft w] Pair by simp
  show ?thesis using assms Pair w' by (cases r) (auto simp: process_file_def)
qed

text \<open>
  C6. When extraction of the uploaded document fails (\<^verbatim>\<open>process_file\<close> returns \<open>None\<close>),
  one run of the Home page makes no remote call, whether the button was pressed or not,
  and the first thing the run adds to the trace is the report of the extraction failure
  (\<^verbatim>\<open>st.error\<close> with "An error occurred: ..."). With the button
  pressed the run ends before the call: \<^verbatim>\<open>prompt.replace\<close> raises \<^verbatim>\<open>TypeError\<close> on
  the absent text, outside the \<^verbatim>\<open>try\<close>.
\<close>

theorem extraction_failure_no_remote_call:
  assumes "home_page x up key clicked s w = (r, s', w')"
    and "uploaded_file_content s' = Some content" "content \<noteq> []" "file_type s' = Some ft"
    and "fst (process_file x content ft w) = None"
  shows "remote_calls (events w') = remote_calls (events w) \<and>
         (\<exists>e rest. events w' =
            events w @ StError (str_lit ''An error occurred: '') (Some e) # rest) \<and>
         (clicked \<longrightarrow> r = Some TypeError)"
proof -
  obtain w1 where pf: "process_file x content ft w = (None, w1)"
    using assms(5) by (cases "process_file x content ft w") auto
  obtain e where e: "events w1 = events w @ [StError (str_lit ''An error occurred: '') (Some e)]"
    using process_file_None [OF assms(5)] pf by auto
  define s2 where "s2 = (case up of None \<Rightarrow> s | Some (content, type) \<Rightarrow>
      s\<lparr>uploaded_file_content := Some content, file_type := Some type\<rparr>)\<lparr>api_key := key\<rparr>"
  have s': "s' = s2" using assms(1)
    by (auto simp: home_page_def s2_def Let_def split: option.splits if_splits prod.splits sum.splits)
  have run: "home_page x up key clicked s w =
      (if clicked then Some TypeError else None, s2,
       if clicked then emit (StWarning (str_lit ''Extracting key lessons...''))
         (emit PlaceholderEmpty (emit (PlaceholderWrite None) w1))
       else emit (PlaceholderWrite None) w1)"
    using assms(2-4) pf unfolding s' s2_def
    by (simp add: home_page_def Let_def get_key_ideas_def split: option.splits)
  show ?thesis using run assms(1) e by (auto split: if_splits)
qed

theorem extraction_failure_no_remote_call_witness:
  "fst (process_file
      \<lparr>pdf_page_texts = \<lambda>b. Inr [], read_epub = \<lambda>b. Inr [], soup_get_text = \<lambda>b. Inr [],
       generate_content = \<lambda>k p. Inr [[str_lit ''<markdown>ok'']]\<rparr>
      [CHR 0xFF] (str_lit ''text/plain'') \<lparr>events = [], tmp_files = []\<rparr>) = None \<and>
   remote_calls (events (snd (snd (home_page
      \<lparr>pdf_page_texts = \<lambda>b. Inr [], read_epub = \<lambda>b. Inr [], soup_get_text = \<lambda>b. Inr [],
       generate_content = \<lambda>k p. Inr [[str_lit ''<markdown>ok'']]\<rparr>
      (Some ([CHR 0xFF], str_lit ''text/plain'')) (str_lit ''key'') True
      \<lparr>api_key = [], uploaded_file_content = None, file_type = None,
       custom_prompt = str_lit ''{file_text}''\<rparr>
      \<lparr>events = [], tmp_files = []\<rparr>)))) = [] \<and>
   fst (home_page
      \<lparr>pdf_page_texts = \<lambda>b. Inr [], read_epub = \<lambda>b. Inr [], soup_get_text = \<lambda>b. Inr [],
       generate_content = \<lambda>k p. Inr [[str_lit ''<markdown>ok'']]\<rparr>
      (Some ([CHR 0xFF], str_lit ''text/plain'')) (str_lit ''key'') True
      \<lparr>api_key = [], uploaded_file_content = None, file_type = None,
       custom_prompt = str_lit ''{file_text}''\<rparr>
      \<lparr>events = [], tmp_files = []\<rparr>) = Some TypeError"
proof -
  define x where "x = \<lparr>pdf_page_texts = \<lambda>b::bytes. Inr [] :: exn + str list,
       read_epub = \<lambda>b::bytes. Inr [] :: exn + epub_item list,
       soup_get_text = \<lambda>b::bytes. Inr [] :: exn + str,
       generate_content = \<lambda>(k::str) (p::str). Inr [[str_lit ''<markdown>ok'']] :: exn + response\<rparr>"
  define s where "s = \<lparr>api_key = [], uploaded_file_content = None, file_type = None,
       custom_prompt = str_lit ''{file_text}''\<rparr>"
  define w where "w = \<lparr>events = [], tmp_files = []\<rparr>"
  define h where "h = home_page x (Some ([CHR 0xFF], str_lit ''text/plain'')) (str_lit ''key'') True s w"
  have pf: "fst (process_file x [CHR 0xFF] (str_lit ''text/plain'') w) = None"
    by (simp add: process_file_def process_file_body_def decode_def str_lit_def)
  have run: "home_page x (Some ([CHR 0xFF], str_lit ''text/plain'')) (str_lit ''key'') True s w =
      (fst h, fst (snd h), snd (snd h))"
    by (simp add: h_def)
  have c: "uploaded_file_content (fst (snd h)) = Some [CHR 0xFF]"
    and t: "file_type (fst (snd h)) = Some (str_lit ''text/plain'')"
    unfolding h_def
    by (simp_all add: home_page_def Let_def s_def split: prod.splits sum.splits option.splits)
  have e: "remote_calls (events w) = []" by (simp add: w_def)
  have ne: "[CHR 0xFF] \<noteq> []" by simp
  show ?thesis
    using pf e extraction_failure_no_remote_call [OF run c ne t pf]
    unfolding h_def x_def s_def w_def by simp
qed

lemma epub_text_generate_content [simp]:
  "epub_text (x\<lparr>generate_content := g\<rparr>) items acc = epub_text x items acc"
  by (induction x items acc rule: epub_text.induct) (auto split: sum.splits)

lemma process_file_generate_content [simp]:
  "process_file (x\<lparr>generate_content := g\<rparr>) c ft w = process_file x c ft w"
  by (simp add: process_file_def process_file_body_def process_epub_def
      cong: sum.case_cong prod.case_cong)

text \<open>
  C7, as the code has it. Two runs with the button pressed on a document whose text was
  extracted, differing only in the remote model: in the first the model answers and no
  delimited payload is found (the answer has no text part, or its text has no opening
  marker), in the second the call raises. \<^verbatim>\<open>get_key_ideas\<close> returns \<open>None\<close> in both, and
  both end with "Could not extract the lessons.": a parse failure has no report of its
  own. A failed call shows "Error in Gemini API call: ..." before that message, and so
  does an answer without a text part (the \<^verbatim>\<open>IndexError\<close> is raised inside the
  \<^verbatim>\<open>try\<close>); an answer whose text lacks the marker shows the last message alone.
\<close>

theorem parse_failure_has_no_report_of_its_own:
  assumes "content \<noteq> []" and "process_file x content ft w = (Some t, w1)"
    and "g key (assemble_prompt (custom_prompt s) t) = Inr response"
    and "case first_text response of Inl e' \<Rightarrow> True | Inr result \<Rightarrow> parse_response result = None"
    and "g' key (assemble_prompt (custom_prompt s) t) = Inl e"
  shows
    "fst (get_key_ideas (x\<lparr>generate_content := g\<rparr>) (Some t) key (custom_prompt s) w0) = Inr None \<and>
     fst (get_key_ideas (x\<lparr>generate_content := g'\<rparr>) (Some t) key (custom_prompt s) w0) = Inr None \<and>
     shown_errors (events (snd (snd
        (home_page (x\<lparr>generate_content := g\<rparr>) (Some (content, ft)) key True s w)))) =
       shown_errors (events w1) @
         (case first_text response of
            Inl e' \<Rightarrow> [(str_lit ''Error in Gemini API call: '', Some e')]
          | Inr result \<Rightarrow> []) @
         [(str_lit ''Could not extract the lessons.'', None)] \<and>
     shown_errors (events (snd (snd
        (home_page (x\<lparr>generate_content := g'\<rparr>) (Some (content, ft)) key True s w)))) =
       shown_errors (events w1) @
         [(str_lit ''Error in Gemini API call: '', Some e),
          (str_lit ''Could not extract the lessons.'', None)]"
proof (cases "first_text response")
  case (Inl e')
  then show ?thesis using assms by (simp add: home_page_def get_key_ideas_def Let_def)
next
  case (Inr result)
  then show ?thesis using assms by (simp add: home_page_def get_key_ideas_def Let_def)
qed

theorem parse_failure_has_no_report_of_its_own_witness:
  "shown_errors (events (snd (snd (home_page
      \<lparr>pdf_page_texts = \<lambda>b. Inr [], read_epub = \<lambda>b. Inr [], soup_get_text = \<lambda>b. Inr [],
       generate_content = \<lambda>k p. Inr [[str_lit ''no markers here'']]\<rparr>
      (Some (''hi'', str_lit ''text/plain'')) (str_lit ''key'') True
      \<lparr>api_key = [], uploaded_file_content = None, file_type = None,
       custom_prompt = str_lit ''{file_text}''\<rparr>
      \<lparr>events = [], tmp_files = []\<rparr>)))) =
     [(str_lit ''Could not extract the lessons.'', None)] \<and>
   shown_errors (events (snd (snd (home_page
      \<lparr>pdf_page_texts = \<lambda>b. Inr [], read_epub = \<lambda>b. Inr [], soup_get_text = \<lambda>b. Inr [],
       generate_content = \<lambda>k p. Inl (LibraryError (str_lit ''timed out''))\<rparr>
      (Some (''hi'', str_lit ''text/plain'')) (str_lit ''key'') True
      \<lparr>api_key = [], uploaded_file_content = None, file_type = None,
       custom_prompt = str_lit ''{file_text}''\<rparr>
      \<lparr>events = [], tmp_files = []\<rparr>)))) =
     [(str_lit ''Error in Gemini API call: '', Some (LibraryError (str_lit ''timed out''))),
      (str_lit ''Could not extract the lessons.'', None)] \<and>
   fst (get_key_ideas
      \<lparr>pdf_page_texts = \<lambda>b. Inr [], read_epub = \<lambda>b. Inr [], soup_get_text = \<lambda>b. Inr [],
       generate_content = \<lambda>k p. Inr [[str_lit ''no markers here'']]\<rparr>
      (Some (str_lit ''hi'')) (str_lit ''key'') (str_lit ''{file_text}'')
      \<lparr>events = [], tmp_files = []\<rparr>) = Inr None \<and>
   fst (get_key_ideas
      \<lparr>pdf_page_texts = \<lambda>b. Inr [], read_epub = \<lambda>b. Inr [], soup_get_text = \<lambda>b. Inr [],
       generate_content = \<lambda>k p. Inl (LibraryError (str_lit ''timed out''))\<rparr>
      (Some (str_lit ''hi'')) (str_lit ''key'') (str_lit ''{file_text}'')
      \<lparr>events = [], tmp_files = []\<rparr>) = Inr None"
proof -
  define x where "x = \<lparr>pdf_page_texts = \<lambda>b::bytes. Inr [] :: exn + str list,
       read_epub = \<lambda>b::bytes. Inr [] :: exn + epub_item list,
       soup_get_text = \<lambda>b::bytes. Inr [] :: exn + str,
       generate_content = \<lambda>(k::str) (p::str). Inr [] :: exn + response\<rparr>"
  define g where "g = (\<lambda>(k::str) (p::str). Inr [[str_lit ''no markers here'']] :: exn + response)"
  define g' where "g' = (\<lambda>(k::str) (p::str). Inl (LibraryError (str_lit ''timed out'')) :: exn + response)"
  define s where "s = \<lparr>api_key = [], uploaded_file_content = None, file_type = None,
       custom_prompt = str_lit ''{file_text}''\<rparr>"
  define w where "w = \<lparr>events = [], tmp_files = []\<rparr>"
  have ne: "''hi'' \<noteq> []" by simp
  have pf: "process_file x ''hi'' (str_lit ''text/plain'') w = (Some (str_lit ''hi''), w)"
    by (simp add: process_file_def process_file_body_def decode_def str_lit_def)
  have a: "g (str_lit ''key'') (assemble_prompt (custom_prompt s) (str_lit ''hi'')) =
      Inr [[str_lit ''no markers here'']]"
    by (simp add: g_def)
  have b: "first_text [[str_lit ''no markers here'']] = Inr (str_lit ''no markers here'')"
    by (simp add: first_text_def)
  have c: "parse_response (str_lit ''no markers here'') = None"
    by (simp add: parse_response_def str_lit_def marker_def literal_ignorecase_def)
  have bc: "case first_text [[str_lit ''no markers here'']] of Inl e' \<Rightarrow> True
      | Inr result \<Rightarrow> parse_response result = None"
    using b c by simp
  have d: "g' (str_lit ''key'') (assemble_prompt (custom_prompt s) (str_lit ''hi'')) =
      Inl (LibraryError (str_lit ''timed out''))"
    by (simp add: g'_def)
  have xg: "x\<lparr>generate_content := g\<rparr> = \<lparr>pdf_page_texts = \<lambda>b. Inr [], read_epub = \<lambda>b. Inr [],
       soup_get_text = \<lambda>b. Inr [], generate_content = \<lambda>k p. Inr [[str_lit ''no markers here'']]\<rparr>"
    and xg': "x\<lparr>generate_content := g'\<rparr> = \<lparr>pdf_page_texts = \<lambda>b. Inr [], read_epub = \<lambda>b. Inr [],
       soup_get_text = \<lambda>b. Inr [], generate_content = \<lambda>k p. Inl (LibraryError (str_lit ''timed out''))\<rparr>"
    by (simp_all add: x_def g_def g'_def)
  have ew: "shown_errors (events w) = []" by (simp add: w_def)
  have cp: "custom_prompt s = str_lit ''{file_text}''" by (simp add: s_def)
  show ?thesis
    using parse_failure_has_no_report_of_its_own [where g = g and g' = g' and key = "str_lit ''key''" and s = s and ?w0.0 = w,
        OF ne pf a bc d] ew b
    unfolding xg xg' cp unfolding s_def w_def by simp
qed

text \<open>
  The claim as stated fails: the value returned for an answer without a payload is the
  value returned for a failed call, and an answer that has no candidates is shown to the
  user as an error of the API call.
\<close>

theorem parse_failure_not_told_apart:
  "fst (get_key_ideas
      \<lparr>pdf_page_texts = \<lambda>b. Inr [], read_epub = \<lambda>b. Inr [], soup_get_text = \<lambda>b. Inr [],
       generate_content = \<lambda>k p. Inr [[str_lit ''no markers here'']]\<rparr>
      (Some (str_lit ''hi'')) (str_lit ''key'') (str_lit ''{file_text}'')
      \<lparr>events = [], tmp_files = []\<rparr>) =
   fst (get_key_ideas
      \<lparr>pdf_page_texts = \<lambda>b. Inr [], read_epub = \<lambda>b. Inr [], soup_get_text = \<lambda>b. Inr [],
       generate_content = \<lambda>k p. Inl (LibraryError (str_lit ''timed out''))\<rparr>
      (Some (str_lit ''hi'')) (str_lit ''key'') (str_lit ''{file_text}'')
      \<lparr>events = [], tmp_files = []\<rparr>) \<and>
   shown_errors (events (snd (snd (home_page
      \<lparr>pdf_page_texts = \<lambda>b. Inr [], read_epub = \<lambda>b. Inr [], soup_get_text = \<lambda>b. Inr [],
       generate_content = \<lambda>k p. Inr []\<rparr>
      (Some (''hi'', str_lit ''text/plain'')) (str_lit ''key'') True
      \<lparr>api_key = [], uploaded_file_content = None, file_type = None,
       custom_prompt = str_lit ''{file_text}''\<rparr>
      \<lparr>events = [], tmp_files = []\<rparr>)))) =
     [(str_lit ''Error in Gemini API call: '', Some IndexError),
      (str_lit ''Could not extract the lessons.'', None)]"
  by (simp add: get_key_ideas_def home_page_def process_file_def process_file_body_def decode_def
      first_text_def parse_response_def str_lit_def marker_def literal_ignorecase_def
      assemble_prompt_def placeholder_def Let_def)

section \<open>Text extraction: the paths that succeed\<close>

text \<open>
  A PDF yields the texts of its pages, concatenated in page order with nothing between
  them. An EPUB whose book is read and whose items are all parsed yields the text, and
  the temporary file is gone afterwards: the path was fresh, so removing it restores the
  files that were there before.
\<close>

lemma process_file_pdf:
  assumes "pdf_page_texts x content = Inr pages"
  shows "process_file x content (str_lit ''application/pdf'') w = (Some (concat pages), w)"
proof -
  have "foldl (@) acc pages = acc @ concat pages" for acc :: str
    by (induction pages arbitrary: acc) simp_all
  then show ?thesis using assms by (simp add: process_file_def process_file_body_def)
qed

lemma le_fold_max: "(a::nat) \<le> fold max xs a"
proof (induction xs arbitrary: a)
  case Nil
  show ?case by simp
next
  case (Cons x xs)
  have "a \<le> max x a" by simp
  also have "\<dots> \<le> fold max xs (max x a)" by (rule Cons.IH)
  finally show ?case by simp
qed

lemma mem_le_fold_max: "x \<in> set xs \<Longrightarrow> (x::nat) \<le> fold max xs a"
proof (induction xs arbitrary: a)
  case Nil
  then show ?case by simp
next
  case (Cons y ys)
  show ?case
  proof (cases "x = y")
    case True
    have "x \<le> max y a" using True by simp
    also have "\<dots> \<le> fold max ys (max y a)" by (rule le_fold_max)
    finally show ?thesis by simp
  next
    case False
    then show ?thesis using Cons by simp
  qed
qed

lemma fresh_path_fresh: "f \<in> set fs \<Longrightarrow> fst f \<noteq> fresh_path fs"
  using mem_le_fold_max [of "fst f" "map fst fs" 0] by (auto simp: fresh_path_def)

lemma filter_fresh_path: "filter (\<lambda>f. fst f \<noteq> fresh_path fs) fs = fs"
  by (rule filter_True) (simp add: fresh_path_fresh)

lemma process_file_epub_success:
  assumes "read_epub x content = Inr items" "epub_text x items [] = Inr t"
  shows "process_file x content (str_lit ''application/epub+zip'') w = (Some t, w)"
  using assms
  by (simp add: process_file_def process_file_body_def process_epub_def named_temporary_file_def
      unlink_def str_lit_def Let_def filter_fresh_path)

section \<open>The temporary file of the EPUB branch\<close>

text \<open>
  When \<^verbatim>\<open>epub.read_epub\<close> raises, control goes to the \<^verbatim>\<open>except\<close> clause and
  \<^verbatim>\<open>os.unlink\<close> on line 145 is skipped: the file that was created stays on disk.
\<close>

lemma process_file_epub_read_fails:
  assumes "read_epub x content = Inl e"
  shows "process_file x content (str_lit ''application/epub+zip'') w =
    (None, emit (StError (str_lit ''An error occurred: '') (Some e))
       (w\<lparr>tmp_files := tmp_files w @ [(fresh_path (tmp_files w), content)]\<rparr>))"
  using assms
  by (simp add: process_file_def process_file_body_def process_epub_def named_temporary_file_def
      str_lit_def Let_def)

text \<open>
  C3 says the temporary file is deleted on every exit path. On the path where parsing
  the EPUB raises it is not: for content that is not an archive, the file created for it
  is still there when \<^verbatim>\<open>process_file\<close> returns.
\<close>

theorem process_file_epub_leaves_temp_file:
  "tmp_files (snd (process_file
      \<lparr>pdf_page_texts = \<lambda>b. Inr [], read_epub = \<lambda>b. Inl (LibraryError (str_lit ''File is not a zip file'')),
       soup_get_text = \<lambda>b. Inr [], generate_content = \<lambda>k p. Inr []\<rparr>
      ''not an epub'' (str_lit ''application/epub+zip'') \<lparr>events = [], tmp_files = []\<rparr>)) =
   [(1, ''not an epub'')]"
  by (simp add: process_file_def process_file_body_def process_epub_def named_temporary_file_def
      fresh_path_def str_lit_def)


section \<open>Response parsing: the closing marker\<close>

text \<open>
  C1 says that \<^verbatim>\<open>parse\<close> returns \<^verbatim>\<open>"Hello"\<close> for the response below, the closing
  marker and what follows being trimmed. The pattern \<^verbatim>\<open><markdown>(.*)\<close> takes everything
  after the opening marker, \<^verbatim>\<open>strip()\<close> removes only whitespace and the substitution
  only block-quote prefixes, so the closing marker stays in the value returned.
\<close>

theorem parse_response_keeps_closing_marker:
  "parse_response (str_lit ''<markdown>\<newline>Hello\<newline></markdown>'') =
     Some (str_lit ''Hello\<newline></markdown>'')"
  by (simp add: parse_response_def str_lit_def marker_def literal_ignorecase_def strip_def
      isspace_def re_sub_blockquote_def)

text \<open>
  C9 gives \<^verbatim>\<open>"quoted line\nplain line"\<close> as the value for the response below. The
  opening marker is found in upper case and the block-quote prefix of the first line is
  removed, but the value returned ends with the closing marker, as for C1.
\<close>

theorem parse_response_quoted_keeps_closing_marker:
  "parse_response
     (str_lit ''<MARKDOWN>\<newline>> quoted line\<newline>plain line\<newline></markdown>'') =
     Some (str_lit ''quoted line\<newline>plain line\<newline></markdown>'')"
  by (simp add: parse_response_def str_lit_def marker_def literal_ignorecase_def strip_def
      isspace_def re_sub_blockquote_def)

section \<open>Response parsing: nested block quotes\<close>

lemma not_isspace_gt: "\<not> isspace 62"
  by (simp add: isspace_def)

lemma isspace_newline: "isspace 10"
  by (simp add: isspace_def)

lemma dropWhile_all: "list_all P ws \<Longrightarrow> \<not> P x \<Longrightarrow> dropWhile P (ws @ x # s) = x # s"
  by (induction ws) auto

lemma takeWhile_all: "list_all P ws \<Longrightarrow> \<not> P x \<Longrightarrow> takeWhile P (ws @ x # s) = ws"
  by (induction ws) auto

lemma takeWhile_app_stop: "\<not> P c \<Longrightarrow> takeWhile P (r @ c # t) = takeWhile P r"
  by (induction r) auto

lemma dropWhile_app_stop: "\<not> P c \<Longrightarrow> dropWhile P (r @ c # t) = dropWhile P r @ c # t"
  by (induction r) auto

lemma sub_blockquote_match:
  assumes "list_all isspace ws"
  shows "sub_blockquote True (ws @ 62 # s) =
    sub_blockquote (takeWhile isspace s \<noteq> [] \<and> last (takeWhile isspace s) = 10) (dropWhile isspace s)"
proof (cases ws)
  case Nil
  then show ?thesis by (simp add: not_isspace_gt)
next
  case (Cons w ws')
  have "dropWhile isspace (w # ws' @ 62 # s) = 62 # s"
    using dropWhile_all [OF assms, of 62 s] Cons by (simp add: not_isspace_gt)
  then show ?thesis using Cons by simp
qed

lemma sub_blockquote_inside_line:
  "10 \<notin> set l \<Longrightarrow> sub_blockquote False (l @ tail) = l @ sub_blockquote False tail"
  by (induction l) auto

lemma sub_blockquote_nested:
  assumes "list_all isspace ws1" "list_all (\<lambda>c. isspace c \<and> c \<noteq> 10) ws2"
  shows "sub_blockquote True (ws1 @ 62 # ws2 @ 62 # rest) = 62 # sub_blockquote False rest"
proof -
  have sp: "list_all isspace ws2" using assms(2) by (induction ws2) auto
  have nl: "(ws2 \<noteq> [] \<and> last ws2 = 10) = False" using assms(2) by (induction ws2) auto
  have t: "takeWhile isspace (ws2 @ 62 # rest) = ws2"
    by (rule takeWhile_all [OF sp]) (rule not_isspace_gt)
  have d: "dropWhile isspace (ws2 @ 62 # rest) = 62 # rest"
    by (rule dropWhile_all [OF sp]) (rule not_isspace_gt)
  show ?thesis
    by (simp add: sub_blockquote_match [OF assms(1)] t d nl)
qed

lemma sub_blockquote_second_marker:
  assumes ws2: "list_all (\<lambda>c. isspace c \<and> c \<noteq> 10) ws2"
  shows "sub_blockquote b (p @ 62 # ws2 @ 62 # s) =
         sub_blockquote b (p @ 62 # ws2) @ 62 # sub_blockquote False s"
proof -
  have sp: "list_all isspace ws2" using ws2 by (induction ws2) auto
  have nl: "10 \<notin> set ws2" using ws2 by (induction ws2) auto
  have fl: "(ws2 \<noteq> [] \<and> last ws2 = 10) = False" using ws2 by (induction ws2) auto
  have t: "takeWhile isspace (ws2 @ 62 # s) = ws2"
    by (rule takeWhile_all [OF sp]) (rule not_isspace_gt)
  have d: "dropWhile isspace (ws2 @ 62 # s) = 62 # s"
    by (rule dropWhile_all [OF sp]) (rule not_isspace_gt)
  have t0: "takeWhile isspace ws2 = ws2" using sp by (induction ws2) auto
  have d0: "dropWhile isspace ws2 = []" using sp by (induction ws2) auto
  have ds: "\<And>r t. dropWhile isspace (r @ 62 # t) = dropWhile isspace r @ 62 # t"
    using not_isspace_gt by (rule dropWhile_app_stop [where P = isspace])
  have ts: "\<And>r t. takeWhile isspace (r @ 62 # t) = takeWhile isspace r"
    using not_isspace_gt by (rule takeWhile_app_stop [where P = isspace])
  have matched: "sub_blockquote True (q @ 62 # ws2 @ 62 # s) =
      sub_blockquote True (q @ 62 # ws2) @ 62 # sub_blockquote False s"
    if q: "list_all isspace q" for q
  proof -
    have "sub_blockquote True (q @ 62 # ws2 @ 62 # s) = 62 # sub_blockquote False s"
      by (simp add: sub_blockquote_match [OF q] t d fl)
    moreover have "sub_blockquote True (q @ 62 # ws2) = []"
      by (simp add: sub_blockquote_match [OF q] t0 d0)
    ultimately show ?thesis by simp
  qed
  have copied: "sub_blockquote False (62 # ws2 @ 62 # s) =
      sub_blockquote False (62 # ws2) @ 62 # sub_blockquote False s"
  proof -
    have "sub_blockquote False (ws2 @ 62 # s) = ws2 @ sub_blockquote False (62 # s)"
      by (rule sub_blockquote_inside_line [OF nl])
    moreover have "sub_blockquote False (ws2 @ []) = ws2 @ sub_blockquote False []"
      by (rule sub_blockquote_inside_line [OF nl])
    ultimately show ?thesis by simp
  qed
  show ?thesis
  proof (induction b p rule: sub_blockquote.induct)
    case (1 bol)
    show ?case using matched [of "[]"] copied by (cases bol) simp_all
  next
    case (2 bol x xs)
    show ?case
    proof (cases bol)
      case False
      then show ?thesis using 2(4) by simp
    next
      case True
      show ?thesis
      proof (cases "dropWhile isspace (x # xs)")
        case Nil
        then have "list_all isspace (x # xs)"
          by (metis dropWhile_eq_Nil_conv list_all_iff)
        then show ?thesis using matched [of "x # xs"] True by simp
      next
        case (Cons g r)
        have d1: "dropWhile isspace (x # xs @ 62 # ws2 @ 62 # s) = g # r @ 62 # ws2 @ 62 # s"
          and d2: "dropWhile isspace (x # xs @ 62 # ws2) = g # r @ 62 # ws2"
          using Cons ds [of "x # xs"] by simp_all
        show ?thesis
        proof (cases "g = 62")
          case False
          then show ?thesis using True d1 d2 2(3) [OF True Cons False] by simp
        next
          case g: True
          show ?thesis using True d1 d2 g 2(2) [OF True Cons g]
            by (simp add: ts ds del: dropWhile.simps takeWhile.simps)
        qed
      qed
    qed
  qed
qed

text \<open>
  C10. Wherever two quote markers stand in the payload with only whitespace other than a
  newline between them, whatever comes before them and whether or not the scan is at the
  start of a line, the second marker and the rest \<open>l\<close> of its line are copied unchanged:
  the result is the cleanup of everything up to the first marker and its whitespace,
  then the second marker, then \<open>l\<close>. So at most the first marker of a line is removed.
  On the first line of the payload (after optional whitespace) the first marker is
  removed and the result starts with the second.
\<close>

theorem nested_quote_keeps_inner_marker:
  assumes "list_all (\<lambda>c. isspace c \<and> c \<noteq> 10) ws2" "10 \<notin> set l"
  shows "sub_blockquote b (pre @ 62 # ws2 @ 62 # l @ tail) =
           sub_blockquote b (pre @ 62 # ws2) @ 62 # l @ sub_blockquote False tail \<and>
         re_sub_blockquote (pre @ 62 # ws2 @ 62 # l @ tail) =
           re_sub_blockquote (pre @ 62 # ws2) @ 62 # l @ sub_blockquote False tail \<and>
         (list_all isspace ws1 \<longrightarrow>
            re_sub_blockquote (ws1 @ 62 # ws2 @ 62 # l @ tail) = 62 # l @ sub_blockquote False tail)"
  using sub_blockquote_second_marker [OF assms(1), of _ pre "l @ tail"]
    sub_blockquote_nested [OF _ assms(1), of ws1 "l @ tail"]
    sub_blockquote_inside_line [OF assms(2), of tail]
  by (simp add: re_sub_blockquote_def)

theorem nested_quote_keeps_inner_marker_witness:
  "re_sub_blockquote (str_lit ''>> text'') = str_lit ''> text'' \<and>
   re_sub_blockquote (str_lit ''a \<newline>>> b'') = str_lit ''a \<newline>> b'' \<and>
   re_sub_blockquote (str_lit ''>\<newline>  >> b'') = str_lit ''>> b'' \<and>
   re_sub_blockquote (str_lit ''> outer\<newline>>\<newline>>  > nested\<newline>last'') =
     str_lit ''outer\<newline>> nested\<newline>last''"
proof -
  have e: "list_all (\<lambda>c. isspace c \<and> c \<noteq> 10) []" by simp
  have w: "list_all (\<lambda>c. isspace c \<and> c \<noteq> 10) (str_lit ''  '')"
    by (simp add: str_lit_def isspace_def)
  have l1: "10 \<notin> set (str_lit '' text'')" and l2: "10 \<notin> set (str_lit '' b'')"
    and l3: "10 \<notin> set (str_lit '' nested'')"
    by (simp_all add: str_lit_def)
  have n: "list_all isspace []" by simp
  have t: "sub_blockquote False (str_lit ''\<newline>last'') = str_lit ''\<newline>last''"
    by (simp add: str_lit_def isspace_def)
  have p2: "re_sub_blockquote (str_lit ''a \<newline>'' @ 62 # []) = str_lit ''a \<newline>''"
    and p3: "re_sub_blockquote (str_lit ''>\<newline>  '' @ 62 # []) = str_lit ''>''"
    and p4: "re_sub_blockquote (str_lit ''> outer\<newline>>\<newline>'' @ 62 # str_lit ''  '') =
      str_lit ''outer\<newline>''"
    by (simp_all add: re_sub_blockquote_def str_lit_def isspace_def)
  have 1: "re_sub_blockquote (str_lit ''>> text'') = str_lit ''> text''"
    using nested_quote_keeps_inner_marker [OF e l1, of _ _ "[]" "[]"] n by (simp add: str_lit_def)
  have 2: "re_sub_blockquote (str_lit ''a \<newline>>> b'') = str_lit ''a \<newline>> b''"
    using nested_quote_keeps_inner_marker [OF e l2, of _ "str_lit ''a \<newline>''" "[]"] p2 by (simp add: str_lit_def)
  have 3: "re_sub_blockquote (str_lit ''>\<newline>  >> b'') = str_lit ''>> b''"
    using nested_quote_keeps_inner_marker [OF e l2, of _ "str_lit ''>\<newline>  ''" "[]"] p3 by (simp add: str_lit_def)
  have 4: "re_sub_blockquote (str_lit ''> outer\<newline>>\<newline>>  > nested\<newline>last'') =
     str_lit ''outer\<newline>> nested\<newline>last''"
    using nested_quote_keeps_inner_marker [OF w l3, of _ "str_lit ''> outer\<newline>>\<newline>''" "str_lit ''\<newline>last''"] p4 t
    by (simp add: str_lit_def)
  show ?thesis using 1 2 3 4 by simp
qed

section \<open>The decoder accepts exactly the UTF-8 encodings\<close>

lemma digits64:
  fixes c :: nat
  shows "c = c div 4096 * 4096 + c div 64 mod 64 * 64 + c mod 64"
    and "c = c div 262144 * 262144 + c div 4096 mod 64 * 4096 + c div 64 mod 64 * 64 + c mod 64"
proof -
  have 1: "c = c div 64 * 64 + c mod 64" by simp
  have 2: "c div 64 = c div 64 div 64 * 64 + c div 64 mod 64" by simp
  have 3: "c div 64 div 64 = c div 4096" by (simp add: div_mult2_eq [symmetric])
  have 4: "c div 4096 = c div 4096 div 64 * 64 + c div 4096 mod 64" by simp
  have 5: "c div 4096 div 64 = c div 262144" by (simp add: div_mult2_eq [symmetric])
  show "c = c div 4096 * 4096 + c div 64 mod 64 * 64 + c mod 64"
    using 1 2 3 by linarith
  show "c = c div 262144 * 262144 + c div 4096 mod 64 * 4096 + c div 64 mod 64 * 64 + c mod 64"
    using 1 2 3 4 5 by linarith
qed

lemma mod64: "n mod 64 \<le> (63::nat)"
  using mod_less_divisor [of 64 n] by linarith


lemma decode2_digits:
  "2 \<le> a \<Longrightarrow> a \<le> 31 \<Longrightarrow> d \<le> 63 \<Longrightarrow>
   decode_utf8 ((192 + a) # (128 + d) # bs) = map_option ((#) (a * 64 + d)) (decode_utf8 bs)"
  by (simp add: cont_def)

lemma decode3_digits:
  "a \<le> 15 \<Longrightarrow> b \<le> 63 \<Longrightarrow> d \<le> 63 \<Longrightarrow> (a = 0 \<longrightarrow> 32 \<le> b) \<Longrightarrow> (a = 13 \<longrightarrow> b \<le> 31) \<Longrightarrow>
   decode_utf8 ((224 + a) # (128 + b) # (128 + d) # bs) =
     map_option ((#) (a * 4096 + b * 64 + d)) (decode_utf8 bs)"
  by (simp add: cont_def)

lemma decode4_digits:
  "e \<le> 4 \<Longrightarrow> a \<le> 63 \<Longrightarrow> b \<le> 63 \<Longrightarrow> d \<le> 63 \<Longrightarrow> (e = 0 \<longrightarrow> 16 \<le> a) \<Longrightarrow> (e = 4 \<longrightarrow> a \<le> 15) \<Longrightarrow>
   decode_utf8 ((240 + e) # (128 + a) # (128 + b) # (128 + d) # bs) =
     map_option ((#) (e * 262144 + a * 4096 + b * 64 + d)) (decode_utf8 bs)"
  by (simp add: cont_def)

lemma decode_encode_cp:
  assumes "scalar c"
  shows "decode_utf8 (encode_cp c @ bs) = map_option ((#) c) (decode_utf8 bs)"
proof -
  have lt: "c < 1114112" using assms by (auto simp: scalar_def)
  then consider "c < 128" | "128 \<le> c" "c < 2048" | "2048 \<le> c" "c < 65536" | "65536 \<le> c"
    by linarith
  then show ?thesis
  proof cases
    case 1
    then show ?thesis by (simp add: encode_cp_def)
  next
    case 2
    define a d where "a = c div 64" and "d = c mod 64"
    have c: "c = a * 64 + d" by (simp add: a_def d_def)
    have d: "d \<le> 63" unfolding d_def by (rule mod64)
    have "2 \<le> a" "a \<le> 31" using 2 c d by linarith+
    then have "decode_utf8 ((192 + a) # (128 + d) # bs) = map_option ((#) c) (decode_utf8 bs)"
      using decode2_digits [of a d bs] d c by simp
    then show ?thesis using 2 by (simp add: encode_cp_def a_def d_def)
  next
    case 3
    define a b d where "a = c div 4096" and "b = c div 64 mod 64" and "d = c mod 64"
    have c: "c = a * 4096 + b * 64 + d" unfolding a_def b_def d_def by (rule digits64(1))
    have bd: "b \<le> 63" "d \<le> 63" unfolding b_def d_def by (rule mod64)+
    have a: "a \<le> 15" using 3 c by linarith
    have lo: "a = 0 \<longrightarrow> 32 \<le> b" using 3 c bd by linarith
    have "c < 55296 \<or> 57344 \<le> c" using assms by (auto simp: scalar_def)
    then have hi: "a = 13 \<longrightarrow> b \<le> 31" using c bd by linarith
    have "decode_utf8 ((224 + a) # (128 + b) # (128 + d) # bs) = map_option ((#) c) (decode_utf8 bs)"
      using decode3_digits [OF a bd lo hi, of bs] c by simp
    then show ?thesis using 3 by (simp add: encode_cp_def a_def b_def d_def)
  next
    case 4
    define e a b d where "e = c div 262144" and "a = c div 4096 mod 64"
      and "b = c div 64 mod 64" and "d = c mod 64"
    have c: "c = e * 262144 + a * 4096 + b * 64 + d"
      unfolding e_def a_def b_def d_def by (rule digits64(2))
    have abd: "a \<le> 63" "b \<le> 63" "d \<le> 63" unfolding a_def b_def d_def by (rule mod64)+
    have e: "e \<le> 4" using lt c by linarith
    have lo: "e = 0 \<longrightarrow> 16 \<le> a" using 4 c abd by linarith
    have hi: "e = 4 \<longrightarrow> a \<le> 15" using lt c by linarith
    have "decode_utf8 ((240 + e) # (128 + a) # (128 + b) # (128 + d) # bs) =
        map_option ((#) c) (decode_utf8 bs)"
      using decode4_digits [OF e abd lo hi, of bs] c by simp
    then show ?thesis using 4 by (simp add: encode_cp_def e_def a_def b_def d_def)
  qed
qed

lemma decode_encode_utf8:
  "list_all scalar s \<Longrightarrow> decode_utf8 (encode_utf8 s) = Some s"
proof (induction s)
  case Nil
  then show ?case by (simp add: encode_utf8_def)
next
  case (Cons c s)
  then show ?case using decode_encode_cp [of c "encode_utf8 s"] by (simp add: encode_utf8_def)
qed


lemma digits_unique:
  fixes a b d :: nat
  assumes "b \<le> 63" "d \<le> 63"
  shows "(a * 4096 + b * 64 + d) div 4096 = a"
    and "(a * 4096 + b * 64 + d) div 64 mod 64 = b"
    and "(a * 4096 + b * 64 + d) mod 64 = d"
    and "(a * 64 + d) div 64 = a"
    and "(a * 64 + d) mod 64 = d"
proof -
  show "(a * 4096 + b * 64 + d) div 4096 = a"
    using assms by (intro div_nat_eqI) simp_all
  have "(a * 4096 + b * 64 + d) div 64 = a * 64 + b"
    using assms by (intro div_nat_eqI) simp_all
  then show "(a * 4096 + b * 64 + d) div 64 mod 64 = b" using assms by simp
  have g: "(k * 64 + d) mod 64 = d" for k using assms(2) by simp
  have "a * 4096 + b * 64 + d = (a * 64 + b) * 64 + d" by simp
  then show "(a * 4096 + b * 64 + d) mod 64 = d" using g [of "a * 64 + b"] by metis
  show "(a * 64 + d) div 64 = a" using assms by simp
  show "(a * 64 + d) mod 64 = d" using assms by simp
qed

lemma encode2_digits:
  assumes "2 \<le> a" "a \<le> 31" "d \<le> 63"
  shows "encode_cp (a * 64 + d) = [192 + a, 128 + d]" and "scalar (a * 64 + d)"
proof -
  have "128 \<le> a * 64 + d" "a * 64 + d < 2048" using assms by linarith+
  then show "encode_cp (a * 64 + d) = [192 + a, 128 + d]"
    using digits_unique(4,5) [OF assms(3) assms(3), of a] by (simp add: encode_cp_def)
  show "scalar (a * 64 + d)" using \<open>a * 64 + d < 2048\<close> by (simp add: scalar_def)
qed

lemma encode3_digits:
  assumes "a \<le> 15" "b \<le> 63" "d \<le> 63" "a = 0 \<longrightarrow> 32 \<le> b" "a = 13 \<longrightarrow> b \<le> 31"
  shows "encode_cp (a * 4096 + b * 64 + d) = [224 + a, 128 + b, 128 + d]"
    and "scalar (a * 4096 + b * 64 + d)"
proof -
  define c where "c = a * 4096 + b * 64 + d"
  have r: "2048 \<le> c" "c < 65536" unfolding c_def using assms by linarith+
  have "c div 4096 = a" "c div 64 mod 64 = b" "c mod 64 = d"
    unfolding c_def using digits_unique(1-3) [OF assms(2,3)] by blast+
  then have "encode_cp c = [224 + a, 128 + b, 128 + d]" using r by (simp add: encode_cp_def)
  then show "encode_cp (a * 4096 + b * 64 + d) = [224 + a, 128 + b, 128 + d]" by (simp add: c_def)
  have "a \<le> 12 \<or> a = 13 \<or> 14 \<le> a" by linarith
  then have "c < 55296 \<or> 57344 \<le> c" unfolding c_def using assms(2-5) by (elim disjE) linarith+
  then have "scalar c" using r by (auto simp: scalar_def)
  then show "scalar (a * 4096 + b * 64 + d)" by (simp add: c_def)
qed

lemma encode4_digits:
  assumes "e \<le> 4" "a \<le> 63" "b \<le> 63" "d \<le> 63" "e = 0 \<longrightarrow> 16 \<le> a" "e = 4 \<longrightarrow> a \<le> 15"
  shows "encode_cp (e * 262144 + a * 4096 + b * 64 + d) = [240 + e, 128 + a, 128 + b, 128 + d]"
    and "scalar (e * 262144 + a * 4096 + b * 64 + d)"
proof -
  define c where "c = e * 262144 + a * 4096 + b * 64 + d"
  have c': "c = (e * 64 + a) * 4096 + b * 64 + d" by (simp add: c_def)
  have r: "65536 \<le> c" "c < 1114112" unfolding c_def using assms by linarith+
  have q: "c div 4096 = e * 64 + a" "c div 64 mod 64 = b" "c mod 64 = d"
    unfolding c' using digits_unique(1-3) [OF assms(3,4)] by blast+
  have "c div 262144 = c div 4096 div 64" by (simp add: div_mult2_eq [symmetric])
  then have "c div 262144 = e" "c div 4096 mod 64 = a"
    using q(1) digits_unique(4,5) [OF assms(2) assms(2), of e] by simp_all
  then have "encode_cp c = [240 + e, 128 + a, 128 + b, 128 + d]"
    using r q by (simp add: encode_cp_def)
  then show "encode_cp (e * 262144 + a * 4096 + b * 64 + d) = [240 + e, 128 + a, 128 + b, 128 + d]"
    by (simp add: c_def)
  have "scalar c" using r by (simp add: scalar_def)
  then show "scalar (e * 262144 + a * 4096 + b * 64 + d)" by (simp add: c_def)
qed


lemma decode_utf8_step:
  assumes "decode_utf8 (b0 # bs) = Some s"
  shows "\<exists>c r s'. s = c # s' \<and> scalar c \<and> b0 # bs = encode_cp c @ r \<and> decode_utf8 r = Some s'"
proof -
  consider (1) "b0 < 128" | (2) "194 \<le> b0" "b0 \<le> 223" | (3) "224 \<le> b0" "b0 \<le> 239"
    | (4) "240 \<le> b0" "b0 \<le> 244" | (5) "128 \<le> b0 \<and> b0 < 194 \<or> 244 < b0"
    by linarith
  then show ?thesis
  proof cases
    case 1
    then obtain s' where "decode_utf8 bs = Some s'" "s = b0 # s'" using assms by auto
    moreover have "scalar b0" "encode_cp b0 = [b0]" using 1 by (simp_all add: scalar_def encode_cp_def)
    ultimately show ?thesis by simp
  next
    case 2
    then obtain b1 r s' where p: "bs = b1 # r" "cont b1" "decode_utf8 r = Some s'"
      "s = ((b0 - 192) * 64 + (b1 - 128)) # s'"
      using assms by (auto split: list.splits if_splits)
    define a d where "a = b0 - 192" and "d = b1 - 128"
    have b: "b0 = 192 + a" "b1 = 128 + d" and r: "2 \<le> a" "a \<le> 31" "d \<le> 63"
      using 2 p(2) by (auto simp: a_def d_def cont_def)
    have s: "s = (a * 64 + d) # s'" using p(4) by (simp add: a_def d_def)
    show ?thesis using encode2_digits [OF r] p(1,3) s b
      by (intro exI [of _ "a * 64 + d"] exI [of _ r] exI [of _ s']) simp
  next
    case 3
    then obtain b1 b2 r s' where p: "bs = b1 # b2 # r"
      "(if b0 = 224 then 160 else 128) \<le> b1" "b1 \<le> (if b0 = 237 then 159 else 191)" "cont b2"
      "decode_utf8 r = Some s'" "s = ((b0 - 224) * 4096 + (b1 - 128) * 64 + (b2 - 128)) # s'"
      using assms by (auto split: list.splits if_splits)
    define a b d where "a = b0 - 224" and "b = b1 - 128" and "d = b2 - 128"
    have b1: "128 \<le> b1" "b1 \<le> 191" using p(2,3) by (auto split: if_splits)
    have e: "b0 = 224 + a" "b1 = 128 + b" "b2 = 128 + d"
      using 3 b1 p(4) by (auto simp: a_def b_def d_def cont_def)
    have r: "a \<le> 15" "b \<le> 63" "d \<le> 63"
      using 3 b1 p(4) by (auto simp: a_def b_def d_def cont_def)
    have lo: "a = 0 \<longrightarrow> 32 \<le> b" using p(2) 3 b1 by (auto simp: a_def b_def split: if_splits)
    have hi: "a = 13 \<longrightarrow> b \<le> 31" using p(3) 3 b1 by (auto simp: a_def b_def split: if_splits)
    have s: "s = (a * 4096 + b * 64 + d) # s'" using p(6) by (simp add: a_def b_def d_def)
    show ?thesis using encode3_digits [OF r lo hi] p(1,5) s e
      by (intro exI [of _ "a * 4096 + b * 64 + d"] exI [of _ r] exI [of _ s']) simp
  next
    case 4
    then obtain b1 b2 b3 r s' where p: "bs = b1 # b2 # b3 # r"
      "(if b0 = 240 then 144 else 128) \<le> b1" "b1 \<le> (if b0 = 244 then 143 else 191)"
      "cont b2" "cont b3" "decode_utf8 r = Some s'"
      "s = ((b0 - 240) * 262144 + (b1 - 128) * 4096 + (b2 - 128) * 64 + (b3 - 128)) # s'"
      using assms by (auto split: list.splits if_splits)
    define e a b d where "e = b0 - 240" and "a = b1 - 128" and "b = b2 - 128" and "d = b3 - 128"
    have b1: "128 \<le> b1" "b1 \<le> 191" using p(2,3) by (auto split: if_splits)
    have q: "b0 = 240 + e" "b1 = 128 + a" "b2 = 128 + b" "b3 = 128 + d"
      using 4 b1 p(4,5) by (auto simp: e_def a_def b_def d_def cont_def)
    have r: "e \<le> 4" "a \<le> 63" "b \<le> 63" "d \<le> 63"
      using 4 b1 p(4,5) by (auto simp: e_def a_def b_def d_def cont_def)
    have lo: "e = 0 \<longrightarrow> 16 \<le> a" using p(2) 4 b1 by (auto simp: e_def a_def split: if_splits)
    have hi: "e = 4 \<longrightarrow> a \<le> 15" using p(3) 4 b1 by (auto simp: e_def a_def split: if_splits)
    have s: "s = (e * 262144 + a * 4096 + b * 64 + d) # s'"
      using p(7) by (simp add: e_def a_def b_def d_def)
    show ?thesis using encode4_digits [OF r lo hi] p(1,6) s q
      by (intro exI [of _ "e * 262144 + a * 4096 + b * 64 + d"] exI [of _ r] exI [of _ s']) simp
  next
    case 5
    then show ?thesis using assms by auto
  qed
qed

lemma decode_utf8_sound:
  "decode_utf8 bs = Some s \<Longrightarrow> list_all scalar s \<and> encode_utf8 s = bs"
proof (induction s arbitrary: bs)
  case Nil
  show ?case
  proof (cases bs)
    case Nil
    then show ?thesis by (simp add: encode_utf8_def)
  next
    case (Cons b0 r)
    then show ?thesis using decode_utf8_step [of b0 r "[]"] Nil.prems by simp
  qed
next
  case (Cons c s)
  then obtain b0 r where bs: "bs = b0 # r" by (cases bs) auto
  obtain c' r' s' where st: "c # s = c' # s'" "scalar c'" "b0 # r = encode_cp c' @ r'"
    "decode_utf8 r' = Some s'"
    using decode_utf8_step [of b0 r "c # s"] Cons.prems bs by blast
  then have "list_all scalar s \<and> encode_utf8 s = r'" using Cons.IH [of r'] by simp
  then show ?case using st bs by (simp add: encode_utf8_def)
qed

section \<open>Extraction of plain text\<close>

lemma process_file_decode:
  assumes "ft \<noteq> str_lit ''application/pdf''" "ft \<noteq> str_lit ''application/epub+zip''"
  shows "process_file x content ft w =
    (case decode_utf8 (map of_char content) of
       Some s \<Rightarrow> (Some s, w)
     | None \<Rightarrow> (None, emit (StError (str_lit ''An error occurred: '') (Some UnicodeDecodeError)) w))"
  using assms by (simp add: process_file_def process_file_body_def decode_def split: option.splits)

text \<open>
  C8. For a media type that is neither PDF nor EPUB: when the bytes are the UTF-8
  encoding of a sequence \<open>s\<close> of Unicode scalar values, \<^verbatim>\<open>process_file\<close> returns exactly
  \<open>s\<close> and reports nothing; and the bytes are the encoding of no such sequence if and only
  if it returns \<open>None\<close>, with no partial text, after reporting the decoding error.
\<close>

theorem process_file_plain_text:
  assumes "ft \<noteq> str_lit ''application/pdf''" "ft \<noteq> str_lit ''application/epub+zip''"
  shows "(list_all scalar s \<and> map of_char content = encode_utf8 s \<longrightarrow>
            process_file x content ft w = (Some s, w)) \<and>
         ((\<nexists>s. list_all scalar s \<and> map of_char content = encode_utf8 s) \<longleftrightarrow>
            process_file x content ft w =
              (None, emit (StError (str_lit ''An error occurred: '') (Some UnicodeDecodeError)) w))"
proof (cases "decode_utf8 (map of_char content)")
  case None
  have inv: "\<not> (list_all scalar s \<and> map of_char content = encode_utf8 s)" for s
  proof
    assume "list_all scalar s \<and> map of_char content = encode_utf8 s"
    then have "decode_utf8 (map of_char content) = Some s" using decode_encode_utf8 [of s] by simp
    then show False using None by simp
  qed
  have "process_file x content ft w =
      (None, emit (StError (str_lit ''An error occurred: '') (Some UnicodeDecodeError)) w)"
    using None by (simp add: process_file_decode [OF assms])
  then show ?thesis using inv by blast
next
  case (Some t)
  have t: "list_all scalar t \<and> map of_char content = encode_utf8 t"
    using decode_utf8_sound [OF Some] by simp
  have u: "s = t" if "list_all scalar s \<and> map of_char content = encode_utf8 s" for s
    using that Some decode_encode_utf8 [of s] by simp
  have p: "process_file x content ft w = (Some t, w)"
    using Some by (simp add: process_file_decode [OF assms])
  have "process_file x content ft w \<noteq>
      (None, emit (StError (str_lit ''An error occurred: '') (Some UnicodeDecodeError)) w)"
    unfolding p by simp
  then show ?thesis using t u p by blast
qed

theorem process_file_plain_text_witness:
  "process_file
      \<lparr>pdf_page_texts = \<lambda>b. Inr [], read_epub = \<lambda>b. Inr [], soup_get_text = \<lambda>b. Inr [],
       generate_content = \<lambda>k p. Inr []\<rparr>
      [CHR 0x48, CHR 0xC3, CHR 0xA9] (str_lit ''text/plain'') \<lparr>events = [], tmp_files = []\<rparr> =
     (Some [72, 233], \<lparr>events = [], tmp_files = []\<rparr>) \<and>
   (\<nexists>s. list_all scalar s \<and> map of_char [CHR 0xFF] = encode_utf8 s)"
proof -
  define x where "x = \<lparr>pdf_page_texts = \<lambda>b::bytes. Inr [] :: exn + str list,
       read_epub = \<lambda>b::bytes. Inr [] :: exn + epub_item list,
       soup_get_text = \<lambda>b::bytes. Inr [] :: exn + str,
       generate_content = \<lambda>(k::str) (p::str). Inr [] :: exn + response\<rparr>"
  define w where "w = \<lparr>events = [], tmp_files = []\<rparr>"
  have ft: "str_lit ''text/plain'' \<noteq> str_lit ''application/pdf''"
    "str_lit ''text/plain'' \<noteq> str_lit ''application/epub+zip''"
    by (simp_all add: str_lit_def)
  have v: "list_all scalar [72, 233] \<and> map of_char [CHR 0x48, CHR 0xC3, CHR 0xA9] = encode_utf8 [72, 233]"
    by (simp add: scalar_def encode_utf8_def encode_cp_def)
  have f: "process_file x [CHR 0xFF] (str_lit ''text/plain'') w =
      (None, emit (StError (str_lit ''An error occurred: '') (Some UnicodeDecodeError)) w)"
    by (simp add: process_file_def process_file_body_def decode_def str_lit_def)
  have 1: "process_file x [CHR 0x48, CHR 0xC3, CHR 0xA9] (str_lit ''text/plain'') w = (Some [72, 233], w)"
    using process_file_plain_text [OF ft, of "[72, 233]" "[CHR 0x48, CHR 0xC3, CHR 0xA9]" x w] v by blast
  have 2: "\<nexists>s. list_all scalar s \<and> map of_char [CHR 0xFF] = encode_utf8 s"
    using process_file_plain_text [OF ft, of _ "[CHR 0xFF]" x w] f by blast
  show ?thesis using 1 2 unfolding x_def w_def by simp
qed

end
